theory Spec2Isabelle
  imports Main "HOL-Library.AList"
begin

section \<open>The session relay of server.cjs\<close>

text \<open>
  The server keeps one table, \<^verbatim>\<open>activeSessions\<close>, a JavaScript \<^verbatim>\<open>Map\<close> from session id
  to a session object, and registers one handler per socket event. A JavaScript
  \<^verbatim>\<open>Map\<close> iterates in insertion order and \<^verbatim>\<open>set\<close> on a present key keeps the key's
  position, so the table is an association list: \<^verbatim>\<open>has\<close>/\<open>get\<close> are \<open>map_of\<close>,
  \<^verbatim>\<open>set\<close> is \<open>AList.update\<close> and \<^verbatim>\<open>delete\<close> is \<open>AList.delete\<close>. The \<^verbatim>\<open>Set\<close> of
  participants is a list in insertion order.

  Socket ids and session ids are strings. A handler that tests \<^verbatim>\<open>sessionId && ...\<close>
  rejects the falsy ids; among strings that is the empty string.
\<close>

type_synonym socket_id = string
type_synonym session_id = string
type_synonym payload = "nat list"

record session =
  host :: socket_id
  participants :: "socket_id list"
  active :: bool
  createdAt :: nat

text \<open>
  The rooms are those of the socket.io adapter. A socket is put into the room named by
  its own id when it connects (its private room), \<^verbatim>\<open>socket.join(r)\<close> puts it into room
  \<open>r\<close>, and it leaves every room, the private one included, when it disconnects, before
  its \<^verbatim>\<open>disconnect\<close> handler runs. The server never calls \<^verbatim>\<open>socket.leave\<close>. Pending
  \<^verbatim>\<open>setTimeout\<close> callbacks are kept with their due time in milliseconds.
\<close>

record state =
  activeSessions :: "(session_id \<times> session) list"
  rooms :: "session_id \<Rightarrow> socket_id list"
  timers :: "(nat \<times> session_id) list"

datatype role = Host | Participant

datatype out_event =
    ConnectionSuccessful session_id role "string option" "socket_id option"
  | SessionError string string
  | CheckSessionReply bool
  | ParticipantJoined socket_id
  | ParticipantsList "socket_id list"
  | ParticipantLeft socket_id
  | NewHost socket_id
  | SessionClosed session_id
  | AudioChunkOut payload
  | ParticipantRecording socket_id
  | StopRecordingOut

text \<open>
  \<open>ToSocket c\<close> is \<^verbatim>\<open>socket.emit\<close> (and the acknowledgement callback), \<open>ToRoom r\<close> is
  \<^verbatim>\<open>io.to(r).emit\<close>, \<open>ToRoomExcept r c\<close> is \<^verbatim>\<open>socket.to(r).emit\<close> on the socket \<open>c\<close>.
\<close>

datatype target = ToSocket socket_id | ToRoom session_id | ToRoomExcept session_id socket_id

datatype emission = Emit target out_event

datatype event =
    Connect socket_id
  | CreateSession socket_id session_id
  | CheckSession socket_id session_id
  | JoinSession socket_id session_id
  | LeaveSession socket_id session_id
  | CloseSession socket_id session_id
  | AudioChunk socket_id payload session_id
  | RecordingStarted socket_id session_id
  | StopRecording socket_id session_id
  | Disconnect socket_id
  | Timeout nat session_id

definition init_state :: state where
  "init_state = \<lparr>activeSessions = [], rooms = (\<lambda>r. []), timers = []\<rparr>"

definition truthy :: "session_id \<Rightarrow> bool" where
  "truthy sessionId = (sessionId \<noteq> [])"

definition set_add :: "'a \<Rightarrow> 'a list \<Rightarrow> 'a list" where
  "set_add x xs = (if x \<in> set xs then xs else xs @ [x])"

definition room_join :: "socket_id \<Rightarrow> session_id \<Rightarrow> (session_id \<Rightarrow> socket_id list) \<Rightarrow> (session_id \<Rightarrow> socket_id list)" where
  "room_join c r rs = rs(r := set_add c (rs r))"

definition leave_all :: "socket_id \<Rightarrow> (session_id \<Rightarrow> socket_id list) \<Rightarrow> (session_id \<Rightarrow> socket_id list)" where
  "leave_all c rs = (\<lambda>r. removeAll c (rs r))"

fun recipients :: "(session_id \<Rightarrow> socket_id list) \<Rightarrow> target \<Rightarrow> socket_id list" where
  "recipients rs (ToSocket c) = [c]"
| "recipients rs (ToRoom r) = rs r"
| "recipients rs (ToRoomExcept r c) = filter (\<lambda>x. x \<noteq> c) (rs r)"

fun deliver :: "(session_id \<Rightarrow> socket_id list) \<Rightarrow> emission \<Rightarrow> (socket_id \<times> out_event) list" where
  "deliver rs (Emit t e) = map (\<lambda>c. (c, e)) (recipients rs t)"

definition grace_delay :: nat where
  "grace_delay = 5000"

subsection \<open>The handlers\<close>

text \<open>
  The \<^verbatim>\<open>connection\<close> callback registers the handlers and changes no session; what the
  library has done by then is to put the socket into its private room.
\<close>

definition connect :: "socket_id \<Rightarrow> state \<Rightarrow> state \<times> emission list" where
  "connect c st = (st\<lparr>rooms := room_join c c (rooms st)\<rparr>, [])"

definition create_session :: "nat \<Rightarrow> socket_id \<Rightarrow> session_id \<Rightarrow> state \<Rightarrow> state \<times> emission list" where
  "create_session now c sessionId st =
     (st\<lparr>activeSessions :=
           AList.update sessionId
             \<lparr>host = c, participants = [c], active = True, createdAt = now\<rparr>
             (activeSessions st),
         rooms := room_join c sessionId (rooms st)\<rparr>,
      [Emit (ToSocket c) (ConnectionSuccessful sessionId Host (Some ''created'') None)])"

definition check_session :: "socket_id \<Rightarrow> session_id \<Rightarrow> state \<Rightarrow> state \<times> emission list" where
  "check_session c sessionId st =
     (case map_of (activeSessions st) sessionId of
        Some s \<Rightarrow> (st, [Emit (ToSocket c) (CheckSessionReply (active s))])
      | None \<Rightarrow> (st, [Emit (ToSocket c) (CheckSessionReply False)]))"

definition join_session :: "nat \<Rightarrow> socket_id \<Rightarrow> session_id \<Rightarrow> state \<Rightarrow> state \<times> emission list" where
  "join_session now c sessionId st =
     (case map_of (activeSessions st) sessionId of
        Some s \<Rightarrow>
          if \<not> active s then
            (st, [Emit (ToSocket c)
                    (SessionError ''SESSION_CLOSED'' ''This session has been closed by the host.'')])
          else
            let ps = set_add c (participants s) in
            (st\<lparr>activeSessions := AList.update sessionId (s\<lparr>participants := ps\<rparr>) (activeSessions st),
                rooms := room_join c sessionId (rooms st)\<rparr>,
             [Emit (ToSocket c) (ConnectionSuccessful sessionId Participant None (Some (host s))),
              Emit (ToRoomExcept sessionId c) (ParticipantJoined c),
              Emit (ToSocket c) (ParticipantsList (filter (\<lambda>i. i \<noteq> c) ps))])
      | None \<Rightarrow>
          (st\<lparr>activeSessions :=
                AList.update sessionId
                  \<lparr>host = c, participants = [c], active = True, createdAt = now\<rparr>
                  (activeSessions st),
              rooms := room_join c sessionId (rooms st)\<rparr>,
           [Emit (ToSocket c) (ConnectionSuccessful sessionId Host (Some ''created-on-join'') None)]))"

definition handleParticipantLeaving :: "socket_id \<Rightarrow> session_id \<Rightarrow> state \<Rightarrow> state \<times> emission list" where
  "handleParticipantLeaving socketId sessionId st =
     (case map_of (activeSessions st) sessionId of
        None \<Rightarrow> (st, [])
      | Some s \<Rightarrow>
          let ps = removeAll socketId (participants s);
              left = Emit (ToRoom sessionId) (ParticipantLeft socketId)
          in if length ps = 0 then
               (st\<lparr>activeSessions := AList.delete sessionId (activeSessions st)\<rparr>, [left])
             else if host s = socketId \<and> length ps > 0 then
               (st\<lparr>activeSessions :=
                     AList.update sessionId (s\<lparr>participants := ps, host := hd ps\<rparr>) (activeSessions st)\<rparr>,
                [left, Emit (ToRoom sessionId) (NewHost (hd ps))])
             else
               (st\<lparr>activeSessions :=
                     AList.update sessionId (s\<lparr>participants := ps\<rparr>) (activeSessions st)\<rparr>,
                [left]))"

definition leave_session :: "socket_id \<Rightarrow> session_id \<Rightarrow> state \<Rightarrow> state \<times> emission list" where
  "leave_session c sessionId st =
     (if truthy sessionId \<and> map_of (activeSessions st) sessionId \<noteq> None
      then handleParticipantLeaving c sessionId st
      else (st, []))"

definition close_session :: "nat \<Rightarrow> socket_id \<Rightarrow> session_id \<Rightarrow> state \<Rightarrow> state \<times> emission list" where
  "close_session now c sessionId st =
     (if truthy sessionId then
        (case map_of (activeSessions st) sessionId of
           None \<Rightarrow> (st, [])
         | Some s \<Rightarrow>
             if host s = c then
               (st\<lparr>activeSessions := AList.update sessionId (s\<lparr>active := False\<rparr>) (activeSessions st),
                   timers := timers st @ [(now + grace_delay, sessionId)]\<rparr>,
                [Emit (ToRoom sessionId) (SessionClosed sessionId)])
             else
               (st, [Emit (ToSocket c)
                       (SessionError ''NOT_SESSION_HOST'' ''Only the session host can close a session.'')]))
      else (st, []))"

text \<open>The callback given to \<^verbatim>\<open>setTimeout\<close> by the close-session handler.\<close>

definition timeout_fire :: "nat \<Rightarrow> session_id \<Rightarrow> state \<Rightarrow> state \<times> emission list" where
  "timeout_fire due sessionId st =
     (let st1 = st\<lparr>timers := remove1 (due, sessionId) (timers st)\<rparr> in
      if map_of (activeSessions st1) sessionId \<noteq> None
      then (st1\<lparr>activeSessions := AList.delete sessionId (activeSessions st1)\<rparr>, [])
      else (st1, []))"

definition audio_chunk :: "socket_id \<Rightarrow> payload \<Rightarrow> session_id \<Rightarrow> state \<Rightarrow> state \<times> emission list" where
  "audio_chunk c audioChunk sessionId st =
     (if \<not> truthy sessionId then (st, [])
      else case map_of (activeSessions st) sessionId of
             None \<Rightarrow> (st, [])
           | Some s \<Rightarrow>
               if \<not> active s then (st, [])
               else (st, [Emit (ToRoomExcept sessionId c) (AudioChunkOut audioChunk)]))"

definition recording_started :: "socket_id \<Rightarrow> session_id \<Rightarrow> state \<Rightarrow> state \<times> emission list" where
  "recording_started c sessionId st =
     (if truthy sessionId \<and> map_of (activeSessions st) sessionId \<noteq> None
      then (st, [Emit (ToRoomExcept sessionId c) (ParticipantRecording c)])
      else (st, []))"

definition stop_recording :: "socket_id \<Rightarrow> session_id \<Rightarrow> state \<Rightarrow> state \<times> emission list" where
  "stop_recording c sessionId st =
     (if truthy sessionId \<and> map_of (activeSessions st) sessionId \<noteq> None
      then (st, [Emit (ToRoom sessionId) StopRecordingOut])
      else (st, []))"

text \<open>
  \<^verbatim>\<open>activeSessions.forEach\<close> of the disconnect handler, over the keys still to visit.
  An entry deleted meanwhile is skipped, and the membership test reads the live session.
\<close>

fun forEach_leaving :: "socket_id \<Rightarrow> session_id list \<Rightarrow> state \<Rightarrow> state \<times> emission list" where
  "forEach_leaving c [] st = (st, [])"
| "forEach_leaving c (sessionId # rest) st =
     (case map_of (activeSessions st) sessionId of
        None \<Rightarrow> forEach_leaving c rest st
      | Some s \<Rightarrow>
          if c \<in> set (participants s) then
            (case handleParticipantLeaving c sessionId st of
               (st1, out1) \<Rightarrow>
                 (case forEach_leaving c rest st1 of
                    (st2, out2) \<Rightarrow> (st2, out1 @ out2)))
          else forEach_leaving c rest st)"

definition disconnect :: "socket_id \<Rightarrow> state \<Rightarrow> state \<times> emission list" where
  "disconnect c st =
     forEach_leaving c (map fst (activeSessions st)) (st\<lparr>rooms := leave_all c (rooms st)\<rparr>)"

fun handle :: "nat \<Rightarrow> event \<Rightarrow> state \<Rightarrow> state \<times> emission list" where
  "handle now (Connect c) st = connect c st"
| "handle now (CreateSession c sessionId) st = create_session now c sessionId st"
| "handle now (CheckSession c sessionId) st = check_session c sessionId st"
| "handle now (JoinSession c sessionId) st = join_session now c sessionId st"
| "handle now (LeaveSession c sessionId) st = leave_session c sessionId st"
| "handle now (CloseSession c sessionId) st = close_session now c sessionId st"
| "handle now (AudioChunk c audioChunk sessionId) st = audio_chunk c audioChunk sessionId st"
| "handle now (RecordingStarted c sessionId) st = recording_started c sessionId st"
| "handle now (StopRecording c sessionId) st = stop_recording c sessionId st"
| "handle now (Disconnect c) st = disconnect c st"
| "handle now (Timeout due sessionId) st = timeout_fire due sessionId st"

text \<open>
  A timer callback runs only if it is pending and due. Every other event may arrive at
  any time and from any socket id, connected or not: the reachable states below are those
  of all such event sequences, which include the sequences that real connections can
  produce.
\<close>

fun enabled :: "nat \<Rightarrow> event \<Rightarrow> state \<Rightarrow> bool" where
  "enabled now (Timeout due sessionId) st = ((due, sessionId) \<in> set (timers st) \<and> due \<le> now)"
| "enabled now ev st = True"

fun run :: "(nat \<times> event) list \<Rightarrow> state \<Rightarrow> state" where
  "run [] st = st"
| "run ((now, ev) # evs) st = run evs (fst (handle now ev st))"

fun run_enabled :: "(nat \<times> event) list \<Rightarrow> state \<Rightarrow> bool" where
  "run_enabled [] st = True"
| "run_enabled ((now, ev) # evs) st = (enabled now ev st \<and> run_enabled evs (fst (handle now ev st)))"

inductive reachable :: "state \<Rightarrow> bool" where
  init: "reachable init_state"
| step: "reachable st \<Longrightarrow> enabled now ev st \<Longrightarrow> reachable (fst (handle now ev st))"

text \<open>
  What the connections receive when an event is handled in a state. The recipients are
  read from the rooms after the handler: a handler joins the room before it emits, and the
  socket of a disconnect has left its rooms before the handler runs.
\<close>

definition deliveries :: "nat \<Rightarrow> event \<Rightarrow> state \<Rightarrow> (socket_id \<times> out_event) list" where
  "deliveries now ev st =
     (case handle now ev st of (st1, out) \<Rightarrow> concat (map (deliver (rooms st1)) out))"

subsection \<open>Derived notions used to state the properties\<close>

text \<open>
  What \<^verbatim>\<open>handleParticipantLeaving\<close> does to the session object itself: \<open>None\<close> when the
  entry is deleted. Lemma \<open>hpl_sessions\<close> below ties it to the handler.
\<close>

definition after_leaving :: "socket_id \<Rightarrow> session \<Rightarrow> session option" where
  "after_leaving c s =
     (let ps = removeAll c (participants s) in
      if ps = [] then None
      else if host s = c then Some (s\<lparr>participants := ps, host := hd ps\<rparr>)
      else Some (s\<lparr>participants := ps\<rparr>))"

definition keys_distinct :: "state \<Rightarrow> bool" where
  "keys_distinct st = distinct (map fst (activeSessions st))"

definition no_empty_session :: "state \<Rightarrow> bool" where
  "no_empty_session st = (\<forall>(sid, s) \<in> set (activeSessions st). participants s \<noteq> [])"

definition host_inv :: "state \<Rightarrow> bool" where
  "host_inv st = (\<forall>(sid, s) \<in> set (activeSessions st). active s \<longrightarrow> host s \<in> set (participants s))"

definition host_member :: "state \<Rightarrow> bool" where
  "host_member st = (\<forall>(sid, s) \<in> set (activeSessions st). host s \<in> set (participants s))"

definition members_in_room :: "state \<Rightarrow> bool" where
  "members_in_room st =
     (\<forall>(sid, s) \<in> set (activeSessions st). set (participants s) \<subseteq> set (rooms st sid))"

definition inv_all :: "state \<Rightarrow> bool" where
  "inv_all st = (keys_distinct st \<and> no_empty_session st \<and> host_member st \<and> members_in_room st)"

text \<open>
  The words of the specification for a disconnect: a leave-session for every session
  that has the connection among its members, in the order of the table.
\<close>

definition sessions_of :: "socket_id \<Rightarrow> state \<Rightarrow> session_id list" where
  "sessions_of c st =
     map fst (filter (\<lambda>(sid, s). c \<in> set (participants s)) (activeSessions st))"

fun leave_each :: "socket_id \<Rightarrow> session_id list \<Rightarrow> state \<Rightarrow> state \<times> emission list" where
  "leave_each c [] st = (st, [])"
| "leave_each c (sessionId # rest) st =
     (case leave_session c sessionId st of
        (st1, out1) \<Rightarrow>
          (case leave_each c rest st1 of
             (st2, out2) \<Rightarrow> (st2, out1 @ out2)))"

definition disconnect_spec :: "socket_id \<Rightarrow> state \<Rightarrow> state \<times> emission list" where
  "disconnect_spec c st = leave_each c (sessions_of c st) st"

section \<open>Auxiliary facts\<close>

subsection \<open>The table and handleParticipantLeaving\<close>

lemma set_update_subset: "set (AList.update k v al) \<subseteq> insert (k, v) (set al)"
  by (induction al) auto

lemma set_delete_subset: "set (AList.delete k al) \<subseteq> set al"
  by (induction al) auto

lemma after_leaving_Some:
  "after_leaving c s = Some s' \<Longrightarrow>
     participants s' = removeAll c (participants s) \<and> participants s' \<noteq> [] \<and>
     active s' = active s \<and> createdAt s' = createdAt s \<and>
     host s' = (if host s = c then hd (participants s') else host s)"
  by (auto simp: after_leaving_def Let_def split: if_splits)

lemma after_leaving_None:
  "after_leaving c s = None \<longleftrightarrow> removeAll c (participants s) = []"
  by (simp add: after_leaving_def Let_def)

lemma hpl_sessions:
  "map_of (activeSessions st) k = Some s \<Longrightarrow>
     activeSessions (fst (handleParticipantLeaving c k st)) =
       (case after_leaving c s of
          None \<Rightarrow> AList.delete k (activeSessions st)
        | Some s' \<Rightarrow> AList.update k s' (activeSessions st))"
  by (simp add: handleParticipantLeaving_def after_leaving_def Let_def)

lemma hpl_absent:
  "map_of (activeSessions st) k = None \<Longrightarrow> handleParticipantLeaving c k st = (st, [])"
  by (simp add: handleParticipantLeaving_def)

lemma hpl_rooms [simp]: "rooms (fst (handleParticipantLeaving c k st)) = rooms st"
  by (simp add: handleParticipantLeaving_def Let_def split: option.splits)

lemma hpl_timers [simp]: "timers (fst (handleParticipantLeaving c k st)) = timers st"
  by (simp add: handleParticipantLeaving_def Let_def split: option.splits)

lemma hpl_out:
  "map_of (activeSessions st) k = Some s \<Longrightarrow>
     snd (handleParticipantLeaving c k st) =
       Emit (ToRoom k) (ParticipantLeft c) #
       (if host s = c \<and> removeAll c (participants s) \<noteq> []
        then [Emit (ToRoom k) (NewHost (hd (removeAll c (participants s))))] else [])"
  by (simp add: handleParticipantLeaving_def Let_def)

lemma hpl_lookup_same:
  "map_of (activeSessions (fst (handleParticipantLeaving c k st))) k =
     (case map_of (activeSessions st) k of None \<Rightarrow> None | Some s \<Rightarrow> after_leaving c s)"
  by (cases "map_of (activeSessions st) k")
     (auto simp: hpl_absent hpl_sessions update_conv' delete_conv' split: option.splits)

lemma hpl_lookup_other:
  "k' \<noteq> k \<Longrightarrow>
     map_of (activeSessions (fst (handleParticipantLeaving c k st))) k' = map_of (activeSessions st) k'"
  by (cases "map_of (activeSessions st) k")
     (auto simp: hpl_absent hpl_sessions update_conv' delete_conv' split: option.splits)

lemma hpl_rooms_upd:
  "handleParticipantLeaving c k (st\<lparr>rooms := r\<rparr>) =
     (case handleParticipantLeaving c k st of (st1, out) \<Rightarrow> (st1\<lparr>rooms := r\<rparr>, out))"
  by (simp add: handleParticipantLeaving_def Let_def split: option.splits)

lemma hpl_entries:
  assumes "(k', s') \<in> set (activeSessions (fst (handleParticipantLeaving c k st)))"
  shows "(k', s') \<in> set (activeSessions st) \<or>
         (k' = k \<and> (\<exists>s. (k, s) \<in> set (activeSessions st) \<and> after_leaving c s = Some s'))"
proof (cases "map_of (activeSessions st) k")
  case None
  with assms show ?thesis by (simp add: hpl_absent)
next
  case (Some s)
  then have mem: "(k, s) \<in> set (activeSessions st)" by (rule map_of_SomeD)
  show ?thesis
  proof (cases "after_leaving c s")
    case None
    with Some assms have "(k', s') \<in> set (AList.delete k (activeSessions st))"
      by (simp add: hpl_sessions)
    then show ?thesis using set_delete_subset by fastforce
  next
    case (Some s1)
    with \<open>map_of (activeSessions st) k = Some s\<close> assms
    have "(k', s') \<in> set (AList.update k s1 (activeSessions st))"
      by (simp add: hpl_sessions)
    then have "(k', s') \<in> insert (k, s1) (set (activeSessions st))"
      using set_update_subset by fastforce
    then show ?thesis using mem Some by auto
  qed
qed

lemma hpl_keys_distinct:
  "keys_distinct st \<Longrightarrow> keys_distinct (fst (handleParticipantLeaving c k st))"
  by (cases "map_of (activeSessions st) k")
     (auto simp: keys_distinct_def hpl_absent hpl_sessions distinct_update distinct_delete
           split: option.splits)

lemma forEach_Cons_fst:
  "fst (forEach_leaving c (k # ks) st) =
     (if \<exists>s. map_of (activeSessions st) k = Some s \<and> c \<in> set (participants s)
      then fst (forEach_leaving c ks (fst (handleParticipantLeaving c k st)))
      else fst (forEach_leaving c ks st))"
  by (simp add: case_prod_unfold split: option.splits)

lemma forEach_Cons_snd:
  "snd (forEach_leaving c (k # ks) st) =
     (if \<exists>s. map_of (activeSessions st) k = Some s \<and> c \<in> set (participants s)
      then snd (handleParticipantLeaving c k st) @
           snd (forEach_leaving c ks (fst (handleParticipantLeaving c k st)))
      else snd (forEach_leaving c ks st))"
  by (simp add: case_prod_unfold split: option.splits)

lemma forEach_preserves:
  assumes hpl: "\<And>k st. P st \<Longrightarrow> P (fst (handleParticipantLeaving c k st))"
  shows "P st \<Longrightarrow> P (fst (forEach_leaving c ks st))"
proof (induction ks arbitrary: st)
  case Nil
  then show ?case by simp
next
  case (Cons k ks)
  show ?case
    unfolding forEach_Cons_fst
    using Cons.IH [OF Cons.prems] Cons.IH [OF hpl [OF Cons.prems]] by simp
qed

lemma forEach_rooms [simp]: "rooms (fst (forEach_leaving c ks st)) = rooms st"
  using forEach_preserves [where P = "\<lambda>x. rooms x = rooms st"] by simp

lemma forEach_timers [simp]: "timers (fst (forEach_leaving c ks st)) = timers st"
  using forEach_preserves [where P = "\<lambda>x. timers x = timers st"] by simp

lemma forEach_keys_distinct:
  "keys_distinct st \<Longrightarrow> keys_distinct (fst (forEach_leaving c ks st))"
  using forEach_preserves [where P = keys_distinct] hpl_keys_distinct by blast

lemma forEach_lookup:
  "map_of (activeSessions (fst (forEach_leaving c ks st))) k =
     (case map_of (activeSessions st) k of
        None \<Rightarrow> None
      | Some s \<Rightarrow> if k \<in> set ks \<and> c \<in> set (participants s) then after_leaving c s else Some s)"
proof (induction ks arbitrary: st)
  case Nil
  show ?case by (simp split: option.splits)
next
  case (Cons k0 ks)
  show ?case
  proof (cases "\<exists>s. map_of (activeSessions st) k0 = Some s \<and> c \<in> set (participants s)")
    case False
    then have "fst (forEach_leaving c (k0 # ks) st) = fst (forEach_leaving c ks st)"
      by (simp only: forEach_Cons_fst if_False)
    then show ?thesis using False by (auto simp: Cons.IH simp del: forEach_leaving.simps split: option.splits)
  next
    case True
    then obtain s0 where s0: "map_of (activeSessions st) k0 = Some s0" "c \<in> set (participants s0)"
      by blast
    let ?st1 = "fst (handleParticipantLeaving c k0 st)"
    have eq: "fst (forEach_leaving c (k0 # ks) st) = fst (forEach_leaving c ks ?st1)"
      using True by (simp only: forEach_Cons_fst if_True)
    have ih: "map_of (activeSessions (fst (forEach_leaving c (k0 # ks) st))) k =
        (case map_of (activeSessions ?st1) k of
           None \<Rightarrow> None
         | Some s \<Rightarrow> if k \<in> set ks \<and> c \<in> set (participants s) then after_leaving c s else Some s)"
      unfolding eq by (rule Cons.IH)
    show ?thesis
    proof (cases "k = k0")
      case False
      then have "map_of (activeSessions ?st1) k = map_of (activeSessions st) k"
        by (simp add: hpl_lookup_other)
      then show ?thesis using False unfolding ih by (auto split: option.splits)
    next
      case True
      have l1: "map_of (activeSessions ?st1) k = after_leaving c s0"
        unfolding True by (simp add: hpl_lookup_same s0)
      show ?thesis
      proof (cases "after_leaving c s0")
        case None
        then show ?thesis unfolding ih l1 using True s0 by simp
      next
        case (Some s1)
        then have "c \<notin> set (participants s1)"
          by (auto dest: after_leaving_Some)
        then show ?thesis unfolding ih l1 using True s0 Some by simp
      qed
    qed
  qed
qed

lemma disconnect_lookup:
  "map_of (activeSessions (fst (disconnect c st))) k =
     (case map_of (activeSessions st) k of
        None \<Rightarrow> None
      | Some s \<Rightarrow> if c \<in> set (participants s) then after_leaving c s else Some s)"
proof -
  have "map_of (activeSessions st) k = Some s \<Longrightarrow> k \<in> set (map fst (activeSessions st))" for s
    by (metis map_of_eq_None_iff option.distinct(1) set_map)
  then show ?thesis
    by (auto simp: disconnect_def forEach_lookup split: option.splits)
qed

lemma disconnect_rooms [simp]: "rooms (fst (disconnect c st)) = leave_all c (rooms st)"
  by (simp add: disconnect_def)

lemma disconnect_timers [simp]: "timers (fst (disconnect c st)) = timers st"
  by (simp add: disconnect_def)

lemma disconnect_keys_distinct: "keys_distinct st \<Longrightarrow> keys_distinct (fst (disconnect c st))"
  unfolding disconnect_def by (rule forEach_keys_distinct) (simp add: keys_distinct_def)

subsection \<open>Invariants of the reachable states\<close>

lemma inv_all_lookup:
  "inv_all st \<longleftrightarrow>
     distinct (map fst (activeSessions st)) \<and>
     (\<forall>k s. map_of (activeSessions st) k = Some s \<longrightarrow>
        participants s \<noteq> [] \<and> host s \<in> set (participants s) \<and>
        set (participants s) \<subseteq> set (rooms st k))"
proof (cases "distinct (map fst (activeSessions st))")
  case False
  then show ?thesis by (simp add: inv_all_def keys_distinct_def)
next
  case True
  then have "\<And>k s. ((k, s) \<in> set (activeSessions st)) = (map_of (activeSessions st) k = Some s)"
    by simp
  then show ?thesis
    using True
    unfolding inv_all_def keys_distinct_def no_empty_session_def host_member_def members_in_room_def
    by (simp add: split_def) (metis (no_types) prod.collapse fst_conv snd_conv)
qed

lemma set_set_add [simp]: "set (set_add x xs) = insert x (set xs)"
  by (auto simp: set_add_def)

lemma set_add_nonempty [simp]: "set_add x xs \<noteq> []"
  by (auto simp: set_add_def)

lemma after_leaving_participants:
  "after_leaving c s = Some s' \<Longrightarrow>
     participants s' = removeAll c (participants s) \<and> participants s' \<noteq> []"
  by (auto simp: after_leaving_def Let_def split: if_splits)

lemma after_leaving_host:
  "after_leaving c s = Some s' \<Longrightarrow>
     host s' = (if host s = c then hd (removeAll c (participants s)) else host s)"
  by (auto simp: after_leaving_def Let_def split: if_splits)

lemma after_leaving_host_in:
  assumes a: "after_leaving c s = Some s'" and h: "host s \<in> set (participants s)"
  shows "host s' \<in> set (participants s')"
proof -
  let ?ps = "removeAll c (participants s)"
  from after_leaving_participants [OF a] have ps: "participants s' = ?ps" and ne: "?ps \<noteq> []"
    by auto
  show ?thesis
  proof (cases "host s = c")
    case True
    then have "host s' = hd ?ps" using after_leaving_host [OF a] by simp
    then show ?thesis using hd_in_set [OF ne] ps by simp
  next
    case False
    then have "host s' = host s" using after_leaving_host [OF a] by simp
    then show ?thesis using h False ps by simp
  qed
qed

lemma inv_all_init: "inv_all init_state"
  by (simp add: inv_all_lookup init_state_def)

lemma inv_all_connect: "inv_all st \<Longrightarrow> inv_all (fst (connect c st))"
  unfolding inv_all_lookup
  by (auto simp: connect_def room_join_def simp del: map_of_eq_Some_iff)

lemma inv_all_create: "inv_all st \<Longrightarrow> inv_all (fst (create_session now c k st))"
  unfolding inv_all_lookup
  by (auto simp: create_session_def update_conv' distinct_update room_join_def
           simp del: map_of_eq_Some_iff split: if_splits)

lemma inv_all_join: "inv_all st \<Longrightarrow> inv_all (fst (join_session now c k st))"
  unfolding inv_all_lookup
  by (auto simp: join_session_def Let_def update_conv' distinct_update room_join_def
           simp del: map_of_eq_Some_iff split: option.splits if_splits)

lemma inv_all_close: "inv_all st \<Longrightarrow> inv_all (fst (close_session now c k st))"
  unfolding inv_all_lookup
  by (auto simp: close_session_def update_conv' distinct_update simp del: map_of_eq_Some_iff
           split: option.splits if_splits)

lemma inv_all_timeout: "inv_all st \<Longrightarrow> inv_all (fst (timeout_fire due k st))"
  unfolding inv_all_lookup
  by (auto simp: timeout_fire_def Let_def delete_conv' distinct_delete simp del: map_of_eq_Some_iff
           split: if_splits)

lemma inv_all_hpl: "inv_all st \<Longrightarrow> inv_all (fst (handleParticipantLeaving c k st))"
proof -
  assume a: "inv_all st"
  let ?st1 = "fst (handleParticipantLeaving c k st)"
  have d: "distinct (map fst (activeSessions ?st1))"
    using a hpl_keys_distinct [of st c k] by (simp add: inv_all_def keys_distinct_def)
  have "participants s' \<noteq> [] \<and> host s' \<in> set (participants s') \<and>
        set (participants s') \<subseteq> set (rooms ?st1 k')"
    if l: "map_of (activeSessions ?st1) k' = Some s'" for k' s'
  proof (cases "k' = k")
    case False
    then show ?thesis using l a by (simp add: hpl_lookup_other inv_all_lookup)
  next
    case True
    with l obtain s where s: "map_of (activeSessions st) k = Some s" "after_leaving c s = Some s'"
      by (auto simp: hpl_lookup_same split: option.splits)
    from a s(1) have p: "participants s \<noteq> []" "host s \<in> set (participants s)"
        "set (participants s) \<subseteq> set (rooms st k)"
      by (simp_all add: inv_all_lookup)
    from after_leaving_participants [OF s(2)] after_leaving_host_in [OF s(2)] p show ?thesis
      unfolding True by auto
  qed
  with d show ?thesis unfolding inv_all_lookup by blast
qed

lemma inv_all_leave: "inv_all st \<Longrightarrow> inv_all (fst (leave_session c k st))"
  by (simp add: leave_session_def inv_all_hpl)

lemma inv_all_disconnect: "inv_all st \<Longrightarrow> inv_all (fst (disconnect c st))"
proof -
  assume a: "inv_all st"
  let ?st1 = "fst (disconnect c st)"
  have d: "distinct (map fst (activeSessions ?st1))"
    using a disconnect_keys_distinct [of st c] by (simp add: inv_all_def keys_distinct_def)
  have "participants s' \<noteq> [] \<and> host s' \<in> set (participants s') \<and>
        set (participants s') \<subseteq> set (rooms ?st1 k)"
    if l: "map_of (activeSessions ?st1) k = Some s'" for k s'
  proof -
    from l obtain s where s: "map_of (activeSessions st) k = Some s"
        and alt: "(c \<in> set (participants s) \<and> after_leaving c s = Some s') \<or>
                  (c \<notin> set (participants s) \<and> s' = s)"
      by (auto simp: disconnect_lookup split: option.splits if_splits)
    from a s have p: "participants s \<noteq> []" "host s \<in> set (participants s)"
        "set (participants s) \<subseteq> set (rooms st k)"
      by (simp_all add: inv_all_lookup)
    from alt show ?thesis
    proof
      assume "c \<in> set (participants s) \<and> after_leaving c s = Some s'"
      then have "after_leaving c s = Some s'" by simp
      from after_leaving_participants [OF this] after_leaving_host_in [OF this] p show ?thesis
        by (auto simp: leave_all_def)
    next
      assume "c \<notin> set (participants s) \<and> s' = s"
      with p show ?thesis by (auto simp: leave_all_def)
    qed
  qed
  with d show ?thesis unfolding inv_all_lookup by blast
qed

lemma inv_all_handle: "inv_all st \<Longrightarrow> inv_all (fst (handle now ev st))"
proof (cases ev)
  case (CheckSession c k)
  assume "inv_all st" then show ?thesis
    using CheckSession by (simp add: check_session_def split: option.splits)
next
  case (AudioChunk c a k)
  assume "inv_all st" then show ?thesis
    using AudioChunk by (simp add: audio_chunk_def split: option.splits)
next
  case (RecordingStarted c k)
  assume "inv_all st" then show ?thesis
    using RecordingStarted by (simp add: recording_started_def)
next
  case (StopRecording c k)
  assume "inv_all st" then show ?thesis
    using StopRecording by (simp add: stop_recording_def)
qed (simp_all add: inv_all_connect inv_all_create inv_all_join inv_all_leave inv_all_close
      inv_all_disconnect inv_all_timeout)

lemma reachable_inv_all: "reachable st \<Longrightarrow> inv_all st"
  by (induction rule: reachable.induct) (simp_all add: inv_all_init inv_all_handle)

lemma reachable_run: "reachable st \<Longrightarrow> run_enabled evs st \<Longrightarrow> reachable (run evs st)"
proof (induction evs arbitrary: st)
  case Nil
  then show ?case by simp
next
  case (Cons p evs)
  obtain now ev where p: "p = (now, ev)" by (cases p)
  from Cons.prems have "reachable (fst (handle now ev st))"
    unfolding p by (auto intro: reachable.step)
  with Cons.prems show ?case unfolding p by (simp add: Cons.IH)
qed

subsection \<open>Emissions, and the disconnect loop against single leaves\<close>

lemma update_single:
  "distinct (map fst al) \<Longrightarrow> length (filter (\<lambda>p. fst p = k) (AList.update k v al)) = 1"
proof (induction al)
  case Nil
  show ?case by simp
next
  case (Cons p ps)
  show ?case
  proof (cases "fst p = k")
    case True
    with Cons.prems have "k \<notin> fst ` set ps" by auto
    then have "filter (\<lambda>p. fst p = k) ps = []"
      by (auto simp: filter_empty_conv)
    with True show ?thesis by simp
  next
    case False
    with Cons show ?thesis by simp
  qed
qed

lemma update_absent: "map_of al k = None \<Longrightarrow> AList.update k v al = al @ [(k, v)]"
  by (induction al) (auto split: if_splits)

lemma deliveries_room:
  "Emit (ToRoom r) e \<in> set (snd (handle now ev st)) \<Longrightarrow>
   m \<in> set (rooms (fst (handle now ev st)) r) \<Longrightarrow>
   (m, e) \<in> set (deliveries now ev st)"
  unfolding deliveries_def case_prod_unfold
  by (auto intro!: bexI [where x = "Emit (ToRoom r) e"])

lemma forEach_out_mem:
  "k \<in> set ks \<Longrightarrow> map_of (activeSessions st) k = Some s \<Longrightarrow> c \<in> set (participants s) \<Longrightarrow>
     set (snd (handleParticipantLeaving c k st)) \<subseteq> set (snd (forEach_leaving c ks st))"
proof (induction ks arbitrary: st)
  case Nil
  then show ?case by simp
next
  case (Cons k0 ks)
  show ?case
  proof (cases "k0 = k")
    case True
    with Cons.prems show ?thesis
      by (simp add: forEach_Cons_snd del: forEach_leaving.simps)
  next
    case False
    with Cons.prems have k: "k \<in> set ks" by simp
    show ?thesis
    proof (cases "\<exists>s. map_of (activeSessions st) k0 = Some s \<and> c \<in> set (participants s)")
      case False
      then have "snd (forEach_leaving c (k0 # ks) st) = snd (forEach_leaving c ks st)"
        by (simp only: forEach_Cons_snd if_False)
      then show ?thesis using Cons.IH [OF k Cons.prems(2,3)] by simp
    next
      case True
      let ?st1 = "fst (handleParticipantLeaving c k0 st)"
      have l: "map_of (activeSessions ?st1) k = Some s"
        using \<open>k0 \<noteq> k\<close> Cons.prems(2) by (simp add: hpl_lookup_other)
      have "snd (handleParticipantLeaving c k ?st1) = snd (handleParticipantLeaving c k st)"
        by (simp add: hpl_out [OF l] hpl_out [OF Cons.prems(2)])
      moreover have "snd (forEach_leaving c (k0 # ks) st) =
          snd (handleParticipantLeaving c k0 st) @ snd (forEach_leaving c ks ?st1)"
        using True by (simp only: forEach_Cons_snd if_True)
      ultimately show ?thesis using Cons.IH [OF k l Cons.prems(3)] by auto
    qed
  qed
qed

lemma disconnect_out_mem:
  assumes "map_of (activeSessions st) k = Some s" "c \<in> set (participants s)"
  shows "set (snd (handleParticipantLeaving c k st)) \<subseteq> set (snd (disconnect c st))"
proof -
  let ?st0 = "st\<lparr>rooms := leave_all c (rooms st)\<rparr>"
  have k: "k \<in> set (map fst (activeSessions st))"
    using assms(1) by (metis map_of_eq_None_iff option.distinct(1) set_map)
  have l: "map_of (activeSessions ?st0) k = Some s" using assms(1) by simp
  have "snd (handleParticipantLeaving c k ?st0) = snd (handleParticipantLeaving c k st)"
    by (simp add: hpl_out [OF l] hpl_out [OF assms(1)])
  then show ?thesis
    using forEach_out_mem [OF k l assms(2)] by (simp add: disconnect_def)
qed

lemma forEach_rooms_upd:
  "forEach_leaving c ks (st\<lparr>rooms := r\<rparr>) =
     (case forEach_leaving c ks st of (st1, out) \<Rightarrow> (st1\<lparr>rooms := r\<rparr>, out))"
  by (induction ks arbitrary: st) (auto simp: hpl_rooms_upd split: option.splits prod.splits)

lemma forEach_eq_leave_each:
  assumes "distinct ks"
    and "\<forall>k\<in>set ks. (\<exists>s. map_of (activeSessions st) k = Some s \<and> c \<in> set (participants s)) \<longrightarrow> k \<noteq> []"
  shows "forEach_leaving c ks st =
         leave_each c (filter (\<lambda>k. \<exists>s. map_of (activeSessions st) k = Some s \<and> c \<in> set (participants s)) ks) st"
  using assms
proof (induction ks arbitrary: st)
  case Nil
  show ?case by simp
next
  case (Cons k ks)
  from Cons.prems have d: "distinct ks" and nk: "k \<notin> set ks" by simp_all
  show ?case
  proof (cases "\<exists>s. map_of (activeSessions st) k = Some s \<and> c \<in> set (participants s)")
    case False
    have e1: "forEach_leaving c (k # ks) st = forEach_leaving c ks st"
      using False by (auto split: option.splits)
    have e2: "forEach_leaving c ks st =
        leave_each c (filter (\<lambda>k. \<exists>s. map_of (activeSessions st) k = Some s \<and> c \<in> set (participants s)) ks) st"
      using Cons.prems by (intro Cons.IH [OF d]) simp
    have e3: "filter (\<lambda>k. \<exists>s. map_of (activeSessions st) k = Some s \<and> c \<in> set (participants s)) (k # ks) =
        filter (\<lambda>k. \<exists>s. map_of (activeSessions st) k = Some s \<and> c \<in> set (participants s)) ks"
      using False by simp
    show ?thesis by (simp only: e1 e2 e3)
  next
    case True
    then obtain s where s: "map_of (activeSessions st) k = Some s" "c \<in> set (participants s)"
      by blast
    from True Cons.prems(2) have "k \<noteq> []" by simp
    then have ls: "leave_session c k st = handleParticipantLeaving c k st"
      using s by (simp add: leave_session_def truthy_def)
    let ?st1 = "fst (handleParticipantLeaving c k st)"
    have same: "map_of (activeSessions ?st1) k' = map_of (activeSessions st) k'" if "k' \<in> set ks" for k'
    proof -
      from that nk have "k' \<noteq> k" by auto
      then show ?thesis by (simp add: hpl_lookup_other)
    qed
    have f: "filter (\<lambda>k. \<exists>s. map_of (activeSessions ?st1) k = Some s \<and> c \<in> set (participants s)) ks =
             filter (\<lambda>k. \<exists>s. map_of (activeSessions st) k = Some s \<and> c \<in> set (participants s)) ks"
      by (rule filter_cong) (simp_all add: same)
    have ih: "forEach_leaving c ks ?st1 =
        leave_each c (filter (\<lambda>k. \<exists>s. map_of (activeSessions ?st1) k = Some s \<and> c \<in> set (participants s)) ks) ?st1"
      using Cons.prems(2) by (intro Cons.IH [OF d]) (simp add: same)
    show ?thesis
      using True s ls ih f by (simp add: case_prod_unfold)
  qed
qed

lemma sessions_of_filter:
  assumes "distinct (map fst (activeSessions st))"
  shows "sessions_of c st =
         filter (\<lambda>k. \<exists>s. map_of (activeSessions st) k = Some s \<and> c \<in> set (participants s))
                (map fst (activeSessions st))"
proof -
  have "filter (\<lambda>(sid, s). c \<in> set (participants s)) (activeSessions st) =
        filter ((\<lambda>k. \<exists>s. map_of (activeSessions st) k = Some s \<and> c \<in> set (participants s)) \<circ> fst)
               (activeSessions st)"
  proof (rule filter_cong)
    fix p assume "p \<in> set (activeSessions st)"
    then have "map_of (activeSessions st) (fst p) = Some (snd p)"
      using assms by simp
    then show "(case p of (sid, s) \<Rightarrow> c \<in> set (participants s)) =
        ((\<lambda>k. \<exists>s. map_of (activeSessions st) k = Some s \<and> c \<in> set (participants s)) \<circ> fst) p"
      by (simp add: split_def del: map_of_eq_Some_iff)
  qed simp
  then show ?thesis by (simp add: sessions_of_def filter_map)
qed

subsection \<open>The rooms and the audio fan-out\<close>

text \<open>
  A room gains a socket only when that socket connects under the room's name, or creates
  or joins the session of that name; a disconnect takes the socket out of every room.
\<close>

lemma rooms_step:
  "set (rooms (fst (handle now ev st)) r) \<subseteq>
     set (rooms st r) \<union>
     (case ev of
        Connect c \<Rightarrow> if r = c then {c} else {}
      | CreateSession c sid \<Rightarrow> if r = sid then {c} else {}
      | JoinSession c sid \<Rightarrow> if r = sid then {c} else {}
      | _ \<Rightarrow> {})"
proof (cases ev)
  case (JoinSession c sid)
  then show ?thesis
    by (auto simp: join_session_def room_join_def Let_def split: option.splits if_splits)
next
  case (LeaveSession c sid)
  then show ?thesis by (simp add: leave_session_def)
next
  case (CloseSession c sid)
  then show ?thesis by (simp add: close_session_def split: option.splits)
next
  case (AudioChunk c a sid)
  then show ?thesis by (simp add: audio_chunk_def split: option.splits)
next
  case (Disconnect c)
  then show ?thesis by (auto simp: leave_all_def)
qed (auto simp: connect_def create_session_def check_session_def recording_started_def
      stop_recording_def timeout_fire_def room_join_def Let_def split: option.splits if_splits)

lemma rooms_disconnect: "set (rooms (fst (handle now (Disconnect c) st)) r) = set (rooms st r) - {c}"
  by (auto simp: leave_all_def)

text \<open>
  For a non-empty id of an active session, the chunk is emitted unmodified to the room
  except the sender: every member other than the sender receives it, and the sender does
  not.
\<close>

lemma audio_chunk_members:
  assumes "reachable st" and "sid \<noteq> []"
    and "map_of (activeSessions st) sid = Some s" and "active s"
  shows "handle now (AudioChunk c chunk sid) st =
           (st, [Emit (ToRoomExcept sid c) (AudioChunkOut chunk)]) \<and>
         (\<forall>m\<in>set (participants s). m \<noteq> c \<longrightarrow>
            (m, AudioChunkOut chunk) \<in> set (deliveries now (AudioChunk c chunk sid) st)) \<and>
         (c, AudioChunkOut chunk) \<notin> set (deliveries now (AudioChunk c chunk sid) st)"
proof -
  have h: "handle now (AudioChunk c chunk sid) st =
           (st, [Emit (ToRoomExcept sid c) (AudioChunkOut chunk)])"
    using assms by (simp add: audio_chunk_def truthy_def)
  have "set (participants s) \<subseteq> set (rooms st sid)"
    using reachable_inv_all [OF assms(1)] assms(3) by (simp add: inv_all_lookup)
  then show ?thesis unfolding deliveries_def h by auto
qed

subsection \<open>The close timer\<close>

lemma close_session_by_host:
  "sid \<noteq> [] \<Longrightarrow> map_of (activeSessions st) sid = Some s \<Longrightarrow> host s = c \<Longrightarrow>
     handle now (CloseSession c sid) st =
       (st\<lparr>activeSessions := AList.update sid (s\<lparr>active := False\<rparr>) (activeSessions st),
           timers := timers st @ [(now + 5000, sid)]\<rparr>,
        [Emit (ToRoom sid) (SessionClosed sid)])"
  by (simp add: close_session_def truthy_def grace_delay_def)

lemma timeout_fire_absent:
  "map_of (activeSessions st) sid = None \<Longrightarrow>
     activeSessions (fst (handle now (Timeout due sid) st)) = activeSessions st"
  by (simp add: timeout_fire_def Let_def)

lemma timeout_fire_lookup:
  "map_of (activeSessions (fst (handle now (Timeout due sid) st))) sid = None"
  by (simp add: timeout_fire_def Let_def delete_conv')

subsection \<open>Properties of every session of the table\<close>

lemma removeAll_Nil_iff: "removeAll c ps = [] \<longleftrightarrow> set ps \<subseteq> {c}"
  by (induction ps) auto

lemma ball_update:
  "\<forall>(k, s)\<in>set al. Q s \<Longrightarrow> Q v \<Longrightarrow> \<forall>(k', s)\<in>set (AList.update k v al). Q s"
  using set_update_subset [of k v al] by fastforce

lemma ball_delete:
  "\<forall>(k, s)\<in>set al. Q s \<Longrightarrow> \<forall>(k', s)\<in>set (AList.delete k al). Q s"
  using set_delete_subset [of k al] by fastforce

lemma sessions_all_hpl:
  assumes inv: "\<forall>(k, s)\<in>set (activeSessions st). Q s"
    and leave: "\<And>s s' c. Q s \<Longrightarrow> after_leaving c s = Some s' \<Longrightarrow> Q s'"
  shows "\<forall>(k', s)\<in>set (activeSessions (fst (handleParticipantLeaving c k st))). Q s"
proof (clarify)
  fix k' s'
  assume mem: "(k', s') \<in> set (activeSessions (fst (handleParticipantLeaving c k st)))"
  from hpl_entries [OF mem] show "Q s'"
  proof
    assume "(k', s') \<in> set (activeSessions st)"
    with inv show ?thesis by auto
  next
    assume "k' = k \<and> (\<exists>s. (k, s) \<in> set (activeSessions st) \<and> after_leaving c s = Some s')"
    then obtain s where s: "(k, s) \<in> set (activeSessions st)" "after_leaving c s = Some s'"
      by blast
    from inv s(1) have "Q s" by auto
    then show ?thesis using s(2) by (rule leave)
  qed
qed

lemma sessions_all_handle:
  assumes inv: "\<forall>(k, s)\<in>set (activeSessions st). Q s"
    and new: "\<And>c t. Q \<lparr>host = c, participants = [c], active = True, createdAt = t\<rparr>"
    and join: "\<And>s c. Q s \<Longrightarrow> active s \<Longrightarrow> Q (s\<lparr>participants := set_add c (participants s)\<rparr>)"
    and close: "\<And>s. Q s \<Longrightarrow> Q (s\<lparr>active := False\<rparr>)"
    and leave: "\<And>s s' c. Q s \<Longrightarrow> after_leaving c s = Some s' \<Longrightarrow> Q s'"
  shows "\<forall>(k, s)\<in>set (activeSessions (fst (handle now ev st))). Q s"
proof (cases ev)
  case (Connect c)
  show ?thesis
    using inv Connect by (simp add: connect_def)
next
  case (CreateSession c k)
  show ?thesis
    unfolding CreateSession using ball_update [OF inv new]
    by (simp add: create_session_def)
next
  case (CheckSession c k)
  show ?thesis
    using inv CheckSession by (simp add: check_session_def split: option.splits)
next
  case (JoinSession c k)
  show ?thesis
  proof (cases "map_of (activeSessions st) k")
    case None
    then show ?thesis
      unfolding JoinSession using ball_update [OF inv new]
      by (simp add: join_session_def)
  next
    case (Some s)
    then have "(k, s) \<in> set (activeSessions st)" by (rule map_of_SomeD)
    with inv have q: "Q s" by auto
    show ?thesis
    proof (cases "active s")
      case False
      with Some inv show ?thesis unfolding JoinSession by (simp add: join_session_def)
    next
      case True
      with Some show ?thesis
        unfolding JoinSession using ball_update [OF inv join [OF q True]]
        by (simp add: join_session_def Let_def)
    qed
  qed
next
  case (LeaveSession c k)
  show ?thesis
    using inv sessions_all_hpl [OF inv leave] LeaveSession by (simp add: leave_session_def)
next
  case (CloseSession c k)
  show ?thesis
  proof (cases "map_of (activeSessions st) k")
    case None
    with inv show ?thesis using CloseSession by (simp add: close_session_def)
  next
    case (Some s)
    then have "(k, s) \<in> set (activeSessions st)" by (rule map_of_SomeD)
    with inv have q: "Q s" by auto
    show ?thesis
      unfolding CloseSession using Some inv ball_update [OF inv close [OF q]]
      by (simp add: close_session_def)
  qed
next
  case (AudioChunk c a k)
  show ?thesis
    using inv AudioChunk by (simp add: audio_chunk_def split: option.splits)
next
  case (RecordingStarted c k)
  show ?thesis
    using inv RecordingStarted by (simp add: recording_started_def)
next
  case (StopRecording c k)
  show ?thesis
    using inv StopRecording by (simp add: stop_recording_def)
next
  case (Disconnect c)
  have "\<forall>(k, s)\<in>set (activeSessions (st\<lparr>rooms := leave_all c (rooms st)\<rparr>)). Q s"
    using inv by simp
  then show ?thesis
    unfolding Disconnect handle.simps disconnect_def
    by (rule forEach_preserves [where P = "\<lambda>x. \<forall>(k, s)\<in>set (activeSessions x). Q s", rotated])
       (rule sessions_all_hpl [OF _ leave])
next
  case (Timeout due k)
  show ?thesis
    unfolding Timeout using inv ball_delete [OF inv]
    by (simp add: timeout_fire_def Let_def)
qed

lemma host_inv_handle: "host_inv st \<Longrightarrow> host_inv (fst (handle now ev st))"
  unfolding host_inv_def
proof (rule sessions_all_handle)
  fix s s' c
  assume q: "active s \<longrightarrow> host s \<in> set (participants s)" and a: "after_leaving c s = Some s'"
  show "active s' \<longrightarrow> host s' \<in> set (participants s')"
  proof
    assume "active s'"
    with after_leaving_Some [OF a] have "active s" by simp
    with q show "host s' \<in> set (participants s')"
      using after_leaving_host_in [OF a] by simp
  qed
qed simp_all

lemma no_empty_session_handle:
  "no_empty_session st \<Longrightarrow> no_empty_session (fst (handle now ev st))"
  unfolding no_empty_session_def
  by (rule sessions_all_handle) (auto dest: after_leaving_participants)

section \<open>The claims\<close>

lemmas handler_defs = init_state_def connect_def create_session_def join_session_def leave_session_def
  close_session_def handleParticipantLeaving_def timeout_fire_def audio_chunk_def check_session_def
  disconnect_def truthy_def grace_delay_def set_add_def room_join_def leave_all_def Let_def

subsection \<open>C1: two create-session events for one id\<close>

text \<open>
  C1, as the code has it. The create-session handler stores a fresh session under the id
  whether or not one is there. After two create-session events for the same id from two
  different connections, in a reachable state, the table holds exactly one entry for the
  id, and it is the session of the second event: its host is the second connection and
  its only member is the second connection.
\<close>

theorem create_session_twice:
  assumes "reachable st" and "a \<noteq> b"
  shows "length (filter (\<lambda>p. fst p = sid)
           (activeSessions (run [(t1, CreateSession a sid), (t2, CreateSession b sid)] st))) = 1 \<and>
         map_of (activeSessions (run [(t1, CreateSession a sid), (t2, CreateSession b sid)] st)) sid =
           Some \<lparr>host = b, participants = [b], active = True, createdAt = t2\<rparr>"
proof -
  from assms(1) have "distinct (map fst (activeSessions st))"
    using reachable_inv_all by (simp add: inv_all_def keys_distinct_def)
  then have "distinct (map fst (activeSessions (fst (create_session t1 a sid st))))"
    by (simp add: create_session_def distinct_update)
  then show ?thesis
    by (simp add: update_single update_conv' create_session_def [of t2])
qed

theorem create_session_twice_witness:
  "length (filter (\<lambda>p. fst p = ''room1'')
           (activeSessions (run [(0, CreateSession ''a'' ''room1''), (1, CreateSession ''b'' ''room1'')]
              init_state))) = 1 \<and>
   map_of (activeSessions (run [(0, CreateSession ''a'' ''room1''), (1, CreateSession ''b'' ''room1'')]
       init_state)) ''room1'' =
     Some \<lparr>host = ''b'', participants = [''b''], active = True, createdAt = 1\<rparr>"
  using create_session_twice [OF reachable.init, of "''a''" "''b''" "''room1''" 0 1] by simp

text \<open>
  C1 as stated fails: after the first event the host is \<open>a\<close> with members \<open>[a]\<close>; the
  second event is not a no-op, it leaves host \<open>b\<close> with members \<open>[b]\<close>.
\<close>

theorem create_session_twice_counterexample:
  "map_of (activeSessions (run [(0, CreateSession ''a'' ''room1'')] init_state)) ''room1'' =
     Some \<lparr>host = ''a'', participants = [''a''], active = True, createdAt = 0\<rparr> \<and>
   map_of (activeSessions (run [(0, CreateSession ''a'' ''room1''), (1, CreateSession ''b'' ''room1'')]
       init_state)) ''room1'' =
     Some \<lparr>host = ''b'', participants = [''b''], active = True, createdAt = 1\<rparr>"
  by (simp add: init_state_def create_session_def)

subsection \<open>C2: the host is a member\<close>

text \<open>
  C2. In every reachable state, every session of the table that is active has its host
  among its participants; and every event (create-session, check-session, join-session,
  leave-session, close-session, audio-chunk, recording-started, stop-recording,
  disconnect, the timer callback), handled in any state where this holds, gives a state
  where it holds.
\<close>

theorem host_invariant:
  "(reachable st \<longrightarrow> host_inv st) \<and> (host_inv st \<longrightarrow> host_inv (fst (handle now ev st)))"
proof -
  have "host_inv st" if "reachable st"
    using reachable_inv_all [OF that] by (auto simp: inv_all_def host_member_def host_inv_def)
  then show ?thesis using host_inv_handle by blast
qed

theorem host_invariant_witness:
  "reachable (run [(0, CreateSession ''h'' ''r''), (1, JoinSession ''p'' ''r'')] init_state) \<and>
   host_inv (run [(0, CreateSession ''h'' ''r''), (1, JoinSession ''p'' ''r'')] init_state) \<and>
   host_inv (fst (handle 2 (Disconnect ''h'')
     (run [(0, CreateSession ''h'' ''r''), (1, JoinSession ''p'' ''r'')] init_state)))"
proof -
  have r: "reachable (run [(0, CreateSession ''h'' ''r''), (1, JoinSession ''p'' ''r'')] init_state)"
    by (rule reachable_run [OF reachable.init]) simp
  show ?thesis
    using r host_invariant [of "run [(0, CreateSession ''h'' ''r''), (1, JoinSession ''p'' ''r'')] init_state"
        2 "Disconnect ''h''"]
    by blast
qed

subsection \<open>C3: the fan-out of an audio chunk\<close>

text \<open>
  C3 at a failing input. Connections \<open>h\<close>, \<open>p\<close> and \<open>q\<close> connect; \<open>h\<close> creates
  \<open>room1\<close>, \<open>p\<close> joins it, \<open>q\<close> creates \<open>room2\<close>, and \<open>p\<close> leaves \<open>room1\<close> with
  leave-session. Now \<open>h\<close> is the only member of \<open>room1\<close> and \<open>p\<close> is a member of no
  session. The handler comments its emit as going to all other participants in the
  session, but it sends to the room, which \<open>p\<close> has not left: the chunk that \<open>h\<close> sends
  for \<open>room1\<close> is delivered to \<open>p\<close> (and not to \<open>q\<close>).
\<close>

theorem audio_chunk_reaches_former_member:
  "run_enabled [(0, Connect ''h''), (1, Connect ''p''), (2, Connect ''q''),
       (3, CreateSession ''h'' ''room1''), (4, JoinSession ''p'' ''room1''),
       (5, CreateSession ''q'' ''room2''), (6, LeaveSession ''p'' ''room1'')] init_state \<and>
   activeSessions (run [(0, Connect ''h''), (1, Connect ''p''), (2, Connect ''q''),
       (3, CreateSession ''h'' ''room1''), (4, JoinSession ''p'' ''room1''),
       (5, CreateSession ''q'' ''room2''), (6, LeaveSession ''p'' ''room1'')] init_state) =
     [(''room1'', \<lparr>host = ''h'', participants = [''h''], active = True, createdAt = 3\<rparr>),
      (''room2'', \<lparr>host = ''q'', participants = [''q''], active = True, createdAt = 5\<rparr>)] \<and>
   deliveries 7 (AudioChunk ''h'' [1, 2, 3] ''room1'')
     (run [(0, Connect ''h''), (1, Connect ''p''), (2, Connect ''q''),
       (3, CreateSession ''h'' ''room1''), (4, JoinSession ''p'' ''room1''),
       (5, CreateSession ''q'' ''room2''), (6, LeaveSession ''p'' ''room1'')] init_state) =
     [(''p'', AudioChunkOut [1, 2, 3])]"
  by (simp add: handler_defs deliveries_def)

subsection \<open>C4: no session without members\<close>

text \<open>
  C4. No session of a reachable state has an empty participant list, and every event
  keeps it so: the entry is deleted in the very step that removes the last member. When
  the only member \<open>c\<close> of session \<open>sid\<close> disconnects, or sends a leave-session that the
  handler accepts (the id is not the empty string), the id is absent from the table right
  after the event, the pending timers are what they were, and a check-session for the id
  is answered with \<open>exists = False\<close>.
\<close>

theorem empty_session_removed:
  "(reachable st \<longrightarrow> no_empty_session st) \<and>
   (no_empty_session st \<longrightarrow> no_empty_session (fst (handle now ev st))) \<and>
   (map_of (activeSessions st) sid = Some s \<and> set (participants s) = {c} \<and>
    (ev = Disconnect c \<or> ev = LeaveSession c sid \<and> sid \<noteq> []) \<longrightarrow>
      map_of (activeSessions (fst (handle now ev st))) sid = None \<and>
      timers (fst (handle now ev st)) = timers st \<and>
      handle now' (CheckSession c' sid) (fst (handle now ev st)) =
        (fst (handle now ev st), [Emit (ToSocket c') (CheckSessionReply False)]))"
proof (intro conjI impI)
  assume "reachable st"
  then show "no_empty_session st"
    using reachable_inv_all by (simp add: inv_all_def)
next
  assume "no_empty_session st"
  then show "no_empty_session (fst (handle now ev st))"
    by (rule no_empty_session_handle)
next
  assume a: "map_of (activeSessions st) sid = Some s \<and> set (participants s) = {c} \<and>
    (ev = Disconnect c \<or> ev = LeaveSession c sid \<and> sid \<noteq> [])"
  then have s: "map_of (activeSessions st) sid = Some s" and c: "c \<in> set (participants s)"
    and gone: "after_leaving c s = None"
    by (auto simp: after_leaving_None removeAll_Nil_iff)
  from a have "ev = Disconnect c \<or> ev = LeaveSession c sid \<and> sid \<noteq> []" by simp
  then have l: "map_of (activeSessions (fst (handle now ev st))) sid = None"
    and t: "timers (fst (handle now ev st)) = timers st"
    using s c gone
    by (auto simp: disconnect_lookup leave_session_def truthy_def hpl_lookup_same)
  show "map_of (activeSessions (fst (handle now ev st))) sid = None" by (rule l)
  show "timers (fst (handle now ev st)) = timers st" by (rule t)
  show "handle now' (CheckSession c' sid) (fst (handle now ev st)) =
        (fst (handle now ev st), [Emit (ToSocket c') (CheckSessionReply False)])"
    using l by (simp add: check_session_def)
qed

theorem empty_session_removed_witness:
  "reachable (run [(0, CreateSession ''h'' ''r'')] init_state) \<and>
   no_empty_session (run [(0, CreateSession ''h'' ''r'')] init_state) \<and>
   no_empty_session (fst (handle 1 (LeaveSession ''h'' ''r'') (run [(0, CreateSession ''h'' ''r'')] init_state))) \<and>
   map_of (activeSessions (fst (handle 1 (LeaveSession ''h'' ''r'')
     (run [(0, CreateSession ''h'' ''r'')] init_state)))) ''r'' = None \<and>
   handle 2 (CheckSession ''q'' ''r'')
     (fst (handle 1 (LeaveSession ''h'' ''r'') (run [(0, CreateSession ''h'' ''r'')] init_state))) =
     (fst (handle 1 (LeaveSession ''h'' ''r'') (run [(0, CreateSession ''h'' ''r'')] init_state)),
      [Emit (ToSocket ''q'') (CheckSessionReply False)])"
proof -
  have r: "reachable (run [(0, CreateSession ''h'' ''r'')] init_state)"
    by (rule reachable_run [OF reachable.init]) simp
  have h: "map_of (activeSessions (run [(0, CreateSession ''h'' ''r'')] init_state)) ''r'' =
             Some \<lparr>host = ''h'', participants = [''h''], active = True, createdAt = 0\<rparr> \<and>
           set (participants \<lparr>host = ''h'', participants = [''h''], active = True, createdAt = 0\<rparr>) = {''h''} \<and>
           (LeaveSession ''h'' ''r'' = Disconnect ''h'' \<or>
            LeaveSession ''h'' ''r'' = LeaveSession ''h'' ''r'' \<and> ''r'' \<noteq> [])"
    by (simp add: handler_defs)
  show ?thesis
    using r h empty_session_removed [of "run [(0, CreateSession ''h'' ''r'')] init_state"
        1 "LeaveSession ''h'' ''r''" "''r''"
        "\<lparr>host = ''h'', participants = [''h''], active = True, createdAt = 0\<rparr>" "''h''" 2 "''q''"]
    by blast
qed

subsection \<open>C5: the delayed removal after close-session\<close>

text \<open>
  C5 at a failing input. The host closes session \<open>r\<close> at time 1000, which schedules the
  removal for time 6000, and leaves at 2000, which removes the emptied session. At 3000
  another connection creates \<open>r\<close> afresh. The timer callback only tests that the id is
  present, so when it runs at 6000 it deletes the fresh, active session.
\<close>

theorem close_timer_removes_fresh_session:
  "map_of (activeSessions (run [(0, CreateSession ''a'' ''r''), (1000, CloseSession ''a'' ''r''),
       (2000, LeaveSession ''a'' ''r''), (3000, CreateSession ''b'' ''r'')] init_state)) ''r'' =
     Some \<lparr>host = ''b'', participants = [''b''], active = True, createdAt = 3000\<rparr> \<and>
   run_enabled [(0, CreateSession ''a'' ''r''), (1000, CloseSession ''a'' ''r''),
       (2000, LeaveSession ''a'' ''r''), (3000, CreateSession ''b'' ''r''),
       (6000, Timeout 6000 ''r'')] init_state \<and>
   map_of (activeSessions (run [(0, CreateSession ''a'' ''r''), (1000, CloseSession ''a'' ''r''),
       (2000, LeaveSession ''a'' ''r''), (3000, CreateSession ''b'' ''r''),
       (6000, Timeout 6000 ''r'')] init_state)) ''r'' = None"
  by (simp add: handler_defs)

subsection \<open>C6: join-session on a closing session\<close>

text \<open>
  C6. A join-session for an id whose session is present and inactive leaves the whole
  state as it is and emits one event, \<open>session-error\<close> with code \<open>SESSION_CLOSED\<close>,
  which is delivered to the joining connection and to nobody else.
\<close>

theorem join_closing_session_rejected:
  assumes "map_of (activeSessions st) sid = Some s" and "\<not> active s"
  shows "handle now (JoinSession c sid) st =
           (st, [Emit (ToSocket c)
                   (SessionError ''SESSION_CLOSED'' ''This session has been closed by the host.'')]) \<and>
         deliveries now (JoinSession c sid) st =
           [(c, SessionError ''SESSION_CLOSED'' ''This session has been closed by the host.'')]"
  using assms by (simp add: join_session_def deliveries_def)

theorem join_closing_session_rejected_witness:
  "map_of (activeSessions (run [(0, CreateSession ''h'' ''r''), (1, JoinSession ''p'' ''r''),
       (2, CloseSession ''h'' ''r'')] init_state)) ''r'' =
     Some \<lparr>host = ''h'', participants = [''h'', ''p''], active = False, createdAt = 0\<rparr> \<and>
   handle 3 (JoinSession ''q'' ''r'')
     (run [(0, CreateSession ''h'' ''r''), (1, JoinSession ''p'' ''r''),
       (2, CloseSession ''h'' ''r'')] init_state) =
     (run [(0, CreateSession ''h'' ''r''), (1, JoinSession ''p'' ''r''),
       (2, CloseSession ''h'' ''r'')] init_state,
      [Emit (ToSocket ''q'')
         (SessionError ''SESSION_CLOSED'' ''This session has been closed by the host.'')]) \<and>
   deliveries 3 (JoinSession ''q'' ''r'')
     (run [(0, CreateSession ''h'' ''r''), (1, JoinSession ''p'' ''r''),
       (2, CloseSession ''h'' ''r'')] init_state) =
     [(''q'', SessionError ''SESSION_CLOSED'' ''This session has been closed by the host.'')]"
proof -
  have l: "map_of (activeSessions (run [(0, CreateSession ''h'' ''r''), (1, JoinSession ''p'' ''r''),
       (2, CloseSession ''h'' ''r'')] init_state)) ''r'' =
     Some \<lparr>host = ''h'', participants = [''h'', ''p''], active = False, createdAt = 0\<rparr>"
    by (simp add: handler_defs)
  show ?thesis
    using l join_closing_session_rejected [OF l, of 3 "''q''"] by simp
qed

subsection \<open>C7: join-session on an unknown id\<close>

text \<open>
  C7. A join-session for an id that is not in the table appends a new active session with
  the joining connection as host and only member, puts the connection into the room, and
  answers the joiner alone with \<open>connection-successful\<close>, role host, status
  \<open>created-on-join\<close>; no error is emitted.
\<close>

theorem join_unknown_session_creates:
  assumes "map_of (activeSessions st) sid = None"
  shows "handle now (JoinSession c sid) st =
           (st\<lparr>activeSessions := activeSessions st @
                  [(sid, \<lparr>host = c, participants = [c], active = True, createdAt = now\<rparr>)],
               rooms := room_join c sid (rooms st)\<rparr>,
            [Emit (ToSocket c) (ConnectionSuccessful sid Host (Some ''created-on-join'') None)]) \<and>
         map_of (activeSessions (fst (handle now (JoinSession c sid) st))) sid =
           Some \<lparr>host = c, participants = [c], active = True, createdAt = now\<rparr> \<and>
         deliveries now (JoinSession c sid) st =
           [(c, ConnectionSuccessful sid Host (Some ''created-on-join'') None)]"
proof -
  have "map_of (activeSessions (fst (handle now (JoinSession c sid) st))) sid =
          Some \<lparr>host = c, participants = [c], active = True, createdAt = now\<rparr>"
    using assms by (simp add: join_session_def update_conv')
  moreover have "handle now (JoinSession c sid) st =
           (st\<lparr>activeSessions := activeSessions st @
                  [(sid, \<lparr>host = c, participants = [c], active = True, createdAt = now\<rparr>)],
               rooms := room_join c sid (rooms st)\<rparr>,
            [Emit (ToSocket c) (ConnectionSuccessful sid Host (Some ''created-on-join'') None)])"
    using assms by (simp add: join_session_def update_absent)
  moreover have "deliveries now (JoinSession c sid) st =
           [(c, ConnectionSuccessful sid Host (Some ''created-on-join'') None)]"
    using assms by (simp add: join_session_def deliveries_def)
  ultimately show ?thesis by blast
qed

theorem join_unknown_session_creates_witness:
  "map_of (activeSessions init_state) ''room1'' = None \<and>
   map_of (activeSessions (fst (handle 7 (JoinSession ''p'' ''room1'') init_state))) ''room1'' =
     Some \<lparr>host = ''p'', participants = [''p''], active = True, createdAt = 7\<rparr> \<and>
   deliveries 7 (JoinSession ''p'' ''room1'') init_state =
     [(''p'', ConnectionSuccessful ''room1'' Host (Some ''created-on-join'') None)]"
proof -
  have l: "map_of (activeSessions init_state) ''room1'' = None"
    by (simp add: init_state_def)
  show ?thesis
    using l join_unknown_session_creates [OF l, of 7 "''p''"] by blast
qed

subsection \<open>C8: a disconnect against one leave-session per session\<close>

text \<open>
  C8, as the code has it. The leave-session handler ignores the empty id, the disconnect
  handler does not. In a reachable state where no session that has \<open>c\<close> among its
  members is stored under the empty id, a disconnect of \<open>c\<close> and the sequence of
  leave-session events of \<open>c\<close>, one for each session that has \<open>c\<close> among its members,
  give the same table, the same pending timers and the same emissions
  (\<open>participant-left\<close> and \<open>new-host\<close>, addressed to the same rooms, in the same
  order). They differ in the rooms: the disconnect has taken \<open>c\<close> out of every room, the
  leave-session events leave the rooms as they are.
\<close>

theorem disconnect_as_leaves:
  assumes "reachable st" and "[] \<notin> set (sessions_of c st)"
  shows "activeSessions (fst (handle now (Disconnect c) st)) = activeSessions (fst (disconnect_spec c st)) \<and>
         timers (fst (handle now (Disconnect c) st)) = timers (fst (disconnect_spec c st)) \<and>
         snd (handle now (Disconnect c) st) = snd (disconnect_spec c st) \<and>
         rooms (fst (handle now (Disconnect c) st)) = leave_all c (rooms st) \<and>
         rooms (fst (disconnect_spec c st)) = rooms st"
proof -
  let ?ks = "map fst (activeSessions st)"
  from reachable_inv_all [OF assms(1)] have d: "distinct ?ks"
    by (simp add: inv_all_def keys_distinct_def)
  note so = sessions_of_filter [OF d, of c]
  have ne: "\<forall>k\<in>set ?ks. (\<exists>s. map_of (activeSessions st) k = Some s \<and> c \<in> set (participants s)) \<longrightarrow> k \<noteq> []"
  proof (intro ballI impI)
    fix k
    assume "k \<in> set ?ks" and "\<exists>s. map_of (activeSessions st) k = Some s \<and> c \<in> set (participants s)"
    then have "k \<in> set (sessions_of c st)" unfolding so by simp
    with assms(2) show "k \<noteq> []" by auto
  qed
  have spec: "disconnect_spec c st = forEach_leaving c ?ks st"
    unfolding disconnect_spec_def so by (rule forEach_eq_leave_each [OF d ne, symmetric])
  have impl: "handle now (Disconnect c) st =
      (case forEach_leaving c ?ks st of (st1, out) \<Rightarrow> (st1\<lparr>rooms := leave_all c (rooms st)\<rparr>, out))"
    by (simp add: disconnect_def forEach_rooms_upd)
  show ?thesis
    unfolding impl spec by (simp add: case_prod_unfold)
qed

theorem disconnect_as_leaves_witness:
  "activeSessions (fst (handle 3 (Disconnect ''h'')
      (run [(0, CreateSession ''h'' ''r''), (1, JoinSession ''p'' ''r''), (2, CreateSession ''h'' ''r2'')]
         init_state))) =
   activeSessions (fst (disconnect_spec ''h''
      (run [(0, CreateSession ''h'' ''r''), (1, JoinSession ''p'' ''r''), (2, CreateSession ''h'' ''r2'')]
         init_state))) \<and>
   snd (handle 3 (Disconnect ''h'')
      (run [(0, CreateSession ''h'' ''r''), (1, JoinSession ''p'' ''r''), (2, CreateSession ''h'' ''r2'')]
         init_state)) =
   snd (disconnect_spec ''h''
      (run [(0, CreateSession ''h'' ''r''), (1, JoinSession ''p'' ''r''), (2, CreateSession ''h'' ''r2'')]
         init_state))"
proof -
  let ?S = "run [(0, CreateSession ''h'' ''r''), (1, JoinSession ''p'' ''r''), (2, CreateSession ''h'' ''r2'')]
         init_state"
  have r: "reachable ?S"
    by (rule reachable_run [OF reachable.init]) simp
  have n: "[] \<notin> set (sessions_of ''h'' ?S)"
    by (simp add: handler_defs sessions_of_def)
  show ?thesis
    using disconnect_as_leaves [OF r n, of 3] by blast
qed

text \<open>
  C8 as stated fails on a session stored under the empty id: the disconnect of its only
  member removes it, the leave-session for it changes nothing.
\<close>

theorem disconnect_as_leaves_counterexample:
  "activeSessions (run [(0, CreateSession ''a'' '''')] init_state) =
     [('''', \<lparr>host = ''a'', participants = [''a''], active = True, createdAt = 0\<rparr>)] \<and>
   sessions_of ''a'' (run [(0, CreateSession ''a'' '''')] init_state) = [''''] \<and>
   activeSessions (fst (handle 1 (Disconnect ''a'') (run [(0, CreateSession ''a'' '''')] init_state))) = [] \<and>
   activeSessions (fst (disconnect_spec ''a'' (run [(0, CreateSession ''a'' '''')] init_state))) =
     [('''', \<lparr>host = ''a'', participants = [''a''], active = True, createdAt = 0\<rparr>)]"
  by (simp add: handler_defs sessions_of_def disconnect_spec_def)

subsection \<open>C9: a new host when the host departs\<close>

text \<open>
  C9, as the code has it. The leave-session handler ignores the empty id. Let \<open>c\<close> be
  the host of session \<open>sid\<close> in a reachable state, with other members besides \<open>c\<close>. After
  a disconnect of \<open>c\<close>, or a leave-session of \<open>c\<close> for \<open>sid\<close> with \<open>sid\<close> not empty, the
  session is still in the table, its members are the former ones without \<open>c\<close> in their
  order, its host is the first of them, and a \<open>new-host\<close> event naming that member is
  emitted to the room of the session and delivered to every remaining member.
\<close>

theorem host_reassignment:
  assumes "reachable st"
    and "map_of (activeSessions st) sid = Some s" and "host s = c"
    and "removeAll c (participants s) \<noteq> []"
    and "ev = Disconnect c \<or> ev = LeaveSession c sid \<and> sid \<noteq> []"
  shows "map_of (activeSessions (fst (handle now ev st))) sid =
           Some (s\<lparr>participants := removeAll c (participants s),
                   host := hd (removeAll c (participants s))\<rparr>) \<and>
         hd (removeAll c (participants s)) \<in> set (removeAll c (participants s)) \<and>
         Emit (ToRoom sid) (NewHost (hd (removeAll c (participants s))))
           \<in> set (snd (handle now ev st)) \<and>
         (\<forall>m\<in>set (removeAll c (participants s)).
            (m, NewHost (hd (removeAll c (participants s)))) \<in> set (deliveries now ev st))"
proof -
  let ?ps = "removeAll c (participants s)"
  let ?s' = "s\<lparr>participants := ?ps, host := hd ?ps\<rparr>"
  let ?st1 = "fst (handle now ev st)"
  from reachable_inv_all [OF assms(1)] assms(2,3) have mem: "c \<in> set (participants s)"
    by (auto simp: inv_all_lookup)
  have al: "after_leaving c s = Some ?s'"
    using assms(3,4) by (simp add: after_leaving_def Let_def)
  have l: "map_of (activeSessions ?st1) sid = Some ?s'"
    using assms(5)
  proof
    assume "ev = Disconnect c"
    then show ?thesis using assms(2) mem al by (simp add: disconnect_lookup)
  next
    assume "ev = LeaveSession c sid \<and> sid \<noteq> []"
    then show ?thesis
      using assms(2) al by (simp add: leave_session_def truthy_def hpl_lookup_same)
  qed
  have hd: "hd ?ps \<in> set ?ps" using assms(4) by (rule hd_in_set)
  have nh: "Emit (ToRoom sid) (NewHost (hd ?ps)) \<in> set (snd (handleParticipantLeaving c sid st))"
    using hpl_out [OF assms(2), of c] assms(3,4) by simp
  have em: "Emit (ToRoom sid) (NewHost (hd ?ps)) \<in> set (snd (handle now ev st))"
    using assms(5)
  proof
    assume "ev = Disconnect c"
    then show ?thesis using nh disconnect_out_mem [OF assms(2) mem] by auto
  next
    assume "ev = LeaveSession c sid \<and> sid \<noteq> []"
    then show ?thesis using assms(2) nh by (simp add: leave_session_def truthy_def)
  qed
  have "enabled now ev st" using assms(5) by auto
  with assms(1) have "reachable ?st1" by (rule reachable.step)
  then have "set ?ps \<subseteq> set (rooms ?st1 sid)"
    using reachable_inv_all l by (fastforce simp: inv_all_lookup)
  then have "\<forall>m\<in>set ?ps. (m, NewHost (hd ?ps)) \<in> set (deliveries now ev st)"
    using deliveries_room [OF em] by blast
  with l hd em show ?thesis by blast
qed

theorem host_reassignment_witness:
  "map_of (activeSessions (fst (handle 6 (Disconnect ''h'')
      (run [(0, Connect ''h''), (1, Connect ''p''), (2, Connect ''q''), (3, CreateSession ''h'' ''r''),
            (4, JoinSession ''p'' ''r''), (5, JoinSession ''q'' ''r'')] init_state)))) ''r'' =
     Some (\<lparr>host = ''h'', participants = [''h'', ''p'', ''q''], active = True, createdAt = 3\<rparr>
            \<lparr>participants := [''p'', ''q''], host := ''p''\<rparr>) \<and>
   Emit (ToRoom ''r'') (NewHost ''p'')
     \<in> set (snd (handle 6 (Disconnect ''h'')
      (run [(0, Connect ''h''), (1, Connect ''p''), (2, Connect ''q''), (3, CreateSession ''h'' ''r''),
            (4, JoinSession ''p'' ''r''), (5, JoinSession ''q'' ''r'')] init_state))) \<and>
   (''p'', NewHost ''p'') \<in> set (deliveries 6 (Disconnect ''h'')
      (run [(0, Connect ''h''), (1, Connect ''p''), (2, Connect ''q''), (3, CreateSession ''h'' ''r''),
            (4, JoinSession ''p'' ''r''), (5, JoinSession ''q'' ''r'')] init_state)) \<and>
   (''q'', NewHost ''p'') \<in> set (deliveries 6 (Disconnect ''h'')
      (run [(0, Connect ''h''), (1, Connect ''p''), (2, Connect ''q''), (3, CreateSession ''h'' ''r''),
            (4, JoinSession ''p'' ''r''), (5, JoinSession ''q'' ''r'')] init_state))"
proof -
  let ?S = "run [(0, Connect ''h''), (1, Connect ''p''), (2, Connect ''q''), (3, CreateSession ''h'' ''r''),
            (4, JoinSession ''p'' ''r''), (5, JoinSession ''q'' ''r'')] init_state"
  let ?s = "\<lparr>host = ''h'', participants = [''h'', ''p'', ''q''], active = True, createdAt = 3\<rparr>"
  have r: "reachable ?S"
    by (rule reachable_run [OF reachable.init]) simp
  have l: "map_of (activeSessions ?S) ''r'' = Some ?s"
    by (simp add: handler_defs)
  have h: "host ?s = ''h''" by simp
  have n: "removeAll ''h'' (participants ?s) \<noteq> []" by simp
  have e: "Disconnect ''h'' = Disconnect ''h'' \<or> Disconnect ''h'' = LeaveSession ''h'' ''r'' \<and> ''r'' \<noteq> []"
    by simp
  show ?thesis
    using host_reassignment [OF r l h n e, of 6] by simp
qed

text \<open>
  C9 as stated fails for the empty id: the host \<open>a\<close> of the session stored under it, which
  has the other member \<open>b\<close>, sends leave-session; the handler ignores the event, so \<open>a\<close>
  stays host and member and no \<open>new-host\<close> is emitted.
\<close>

theorem host_reassignment_counterexample:
  "map_of (activeSessions (run [(0, Connect ''a''), (1, Connect ''b''), (2, CreateSession ''a'' ''''),
       (3, JoinSession ''b'' '''')] init_state)) '''' =
     Some \<lparr>host = ''a'', participants = [''a'', ''b''], active = True, createdAt = 2\<rparr> \<and>
   handle 4 (LeaveSession ''a'' '''')
     (run [(0, Connect ''a''), (1, Connect ''b''), (2, CreateSession ''a'' ''''),
       (3, JoinSession ''b'' '''')] init_state) =
     (run [(0, Connect ''a''), (1, Connect ''b''), (2, CreateSession ''a'' ''''),
       (3, JoinSession ''b'' '''')] init_state, [])"
  by (simp add: handler_defs)

subsection \<open>C10: leave-session from a connection that is not a member\<close>

text \<open>
  C10, as the code has it. For a leave-session with a non-empty id of a session of a
  reachable state, from a connection that is not among its members, the state is
  unchanged (members, host and activity of the session included) and one
  \<open>participant-left\<close> event carrying the connection is emitted to the room of the
  session, where every member receives it.
\<close>

theorem leave_by_non_member:
  assumes "reachable st" and "sid \<noteq> []"
    and "map_of (activeSessions st) sid = Some s" and "c \<notin> set (participants s)"
  shows "handle now (LeaveSession c sid) st = (st, [Emit (ToRoom sid) (ParticipantLeft c)]) \<and>
         (\<forall>m\<in>set (participants s). (m, ParticipantLeft c) \<in> set (deliveries now (LeaveSession c sid) st))"
proof -
  from reachable_inv_all [OF assms(1)] assms(3)
  have ne: "participants s \<noteq> []" and hm: "host s \<in> set (participants s)"
    and rm: "set (participants s) \<subseteq> set (rooms st sid)"
    by (simp_all add: inv_all_lookup)
  from hm assms(4) have hc: "host s \<noteq> c" by auto
  have ra: "removeAll c (participants s) = participants s"
    using assms(4) by simp
  have "AList.update sid s (activeSessions st) = activeSessions st"
    using assms(3) by (rule update_triv)
  then have h: "handle now (LeaveSession c sid) st = (st, [Emit (ToRoom sid) (ParticipantLeft c)])"
    using assms(2,3) ne hc ra
    by (simp add: leave_session_def truthy_def handleParticipantLeaving_def Let_def)
  have "(m, ParticipantLeft c) \<in> set (deliveries now (LeaveSession c sid) st)"
    if "m \<in> set (participants s)" for m
    using that rm unfolding deliveries_def h by auto
  then show ?thesis using h by blast
qed

theorem leave_by_non_member_witness:
  "handle 2 (LeaveSession ''x'' ''r'')
     (run [(0, CreateSession ''h'' ''r''), (1, JoinSession ''p'' ''r'')] init_state) =
     (run [(0, CreateSession ''h'' ''r''), (1, JoinSession ''p'' ''r'')] init_state,
      [Emit (ToRoom ''r'') (ParticipantLeft ''x'')]) \<and>
   (''h'', ParticipantLeft ''x'') \<in> set (deliveries 2 (LeaveSession ''x'' ''r'')
     (run [(0, CreateSession ''h'' ''r''), (1, JoinSession ''p'' ''r'')] init_state)) \<and>
   (''p'', ParticipantLeft ''x'') \<in> set (deliveries 2 (LeaveSession ''x'' ''r'')
     (run [(0, CreateSession ''h'' ''r''), (1, JoinSession ''p'' ''r'')] init_state))"
proof -
  have r: "reachable (run [(0, CreateSession ''h'' ''r''), (1, JoinSession ''p'' ''r'')] init_state)"
    by (rule reachable_run [OF reachable.init]) simp
  have n: "''r'' \<noteq> []" by simp
  have l: "map_of (activeSessions (run [(0, CreateSession ''h'' ''r''), (1, JoinSession ''p'' ''r'')] init_state)) ''r'' =
      Some \<lparr>host = ''h'', participants = [''h'', ''p''], active = True, createdAt = 0\<rparr>"
    by (simp add: handler_defs)
  have m: "''x'' \<notin> set (participants \<lparr>host = ''h'', participants = [''h'', ''p''], active = True, createdAt = 0\<rparr>)"
    by simp
  show ?thesis
    using leave_by_non_member [OF r n l m, of 2] by simp
qed

text \<open>
  C10 as stated fails for the empty id: the handler ignores the event and emits nothing.
\<close>

theorem leave_by_non_member_counterexample:
  "map_of (activeSessions (run [(0, CreateSession ''a'' '''')] init_state)) '''' =
     Some \<lparr>host = ''a'', participants = [''a''], active = True, createdAt = 0\<rparr> \<and>
   handle 1 (LeaveSession ''b'' '''') (run [(0, CreateSession ''a'' '''')] init_state) =
     (run [(0, CreateSession ''a'' '''')] init_state, [])"
  by (simp add: handler_defs)

end
